theory Spec2Isabelle
  imports Complex_Main "HOL-Library.Multiset" "HOL-Library.Word"
begin

section \<open>The top-K selector: \<open>getTopK\<close> (main.go, lines 126-163)\<close>

text \<open>
  The Go function works on three pieces of memory: the package variable \<open>labels\<close>, the
  backing array of its argument \<open>predictions\<close>, and its own local slices \<open>preds\<close> and
  \<open>results\<close>. The model threads all of them through every loop as one record, so that
  what a loop writes and what it leaves alone is visible in the model.

  A \<open>float32\<close> confidence is modelled by the real number it denotes: the function only
  copies and compares confidences, and on finite floats Go's \<open>>\<close> is the order of the
  reals. NaN, which compares false with everything, is outside the model.

  Loop counters start at 0 and are only incremented below a slice length, so they are
  naturals; the parameter \<open>k\<close> is an arbitrary Go \<open>int\<close> and may be negative. Every
  index expression of the source is checked in the model: reading or writing outside a
  slice is the run-time panic \<open>IndexOutOfRange\<close>.
\<close>

datatype error =
    IndexOutOfRange
  | SliceBoundsOutOfRange
  | MakeSliceLenOutOfRange
  | NewTensorError string
  | DecodeError string

record pred =
  index :: nat
  "value" :: real

record RecognitionResult =
  Label :: string
  Confidence :: real

record state =
  labels :: "string list"
  predictions :: "real list"
  preds :: "pred list"
  results :: "RecognitionResult list"

text \<open>Lines 137-139: \<open>for i, v := range predictions { preds = append(preds, pred{i, v}) }\<close>.\<close>

function range_preds :: "state \<Rightarrow> nat \<Rightarrow> state" where
  "range_preds s i =
     (if i < length (predictions s) then
        range_preds (s\<lparr>preds := preds s @ [\<lparr>index = i, value = predictions s ! i\<rparr>]\<rparr>) (i + 1)
      else s)"
  by pat_completeness auto
termination
  by (relation "measure (\<lambda>(s, i). length (predictions s) - i)") auto

declare range_preds.simps [simp del]

text \<open>
  Lines 142-144, the body of the inner loop: the comparison reads \<open>preds[j]\<close> and
  \<open>preds[i]\<close>, and the swap \<open>preds[i], preds[j] = preds[j], preds[i]\<close> writes both.
\<close>

definition compare_swap :: "state \<Rightarrow> nat \<Rightarrow> nat \<Rightarrow> error + state" where
  "compare_swap s i j =
     (if \<not> (j < length (preds s) \<and> i < length (preds s)) then Inl IndexOutOfRange
      else if value (preds s ! j) > value (preds s ! i)
      then Inr (s\<lparr>preds := (preds s)[i := preds s ! j, j := preds s ! i]\<rparr>)
      else Inr s)"

lemma compare_swap_length:
  "compare_swap s i j = Inr s' \<Longrightarrow> length (preds s') = length (preds s)"
  by (auto simp: compare_swap_def split: if_splits)

text \<open>Lines 141-145, the inner loop \<open>for j := i + 1; j < len(preds); j++\<close> from a given \<open>j\<close>.\<close>

function sort_inner :: "state \<Rightarrow> nat \<Rightarrow> nat \<Rightarrow> error + state" where
  "sort_inner s i j =
     (if j < length (preds s) then
        case compare_swap s i j of
          Inl e \<Rightarrow> Inl e
        | Inr s' \<Rightarrow> sort_inner s' i (j + 1)
      else Inr s)"
  by pat_completeness auto
termination
proof (relation "measure (\<lambda>(s, i, j). length (preds s) - j)")
  show "wf (measure (\<lambda>(s, i, j). length (preds s) - j))" by simp
next
  fix s :: state and i j s'
  assume "j < length (preds s)" and "compare_swap s i j = Inr s'"
  then show "((s', i, j + 1), s, i, j) \<in> measure (\<lambda>(s, i, j). length (preds s) - j)"
    using compare_swap_length [of s i j s'] by simp
qed

declare sort_inner.simps [simp del]

text \<open>
  An invariant rule for the inner loop: what holds at the start and is kept by every
  executed body holds at the exit, where the counter has reached the end of the slice.
\<close>

lemma sort_inner_rule:
  assumes run: "sort_inner s i j = Inr s'"
    and init: "Q s j"
    and step: "\<And>t m t'. Q t m \<Longrightarrow> m < length (preds t) \<Longrightarrow> compare_swap t i m = Inr t' \<Longrightarrow> Q t' (m + 1)"
  shows "\<exists>m. Q s' m \<and> length (preds s') \<le> m"
  using run init
proof (induction "length (preds s) - j" arbitrary: s j rule: less_induct)
  case less
  show ?case
  proof (cases "j < length (preds s)")
    case True
    with less.prems(1) obtain t where t: "compare_swap s i j = Inr t"
      and rest: "sort_inner t i (j + 1) = Inr s'"
      by (subst (asm) sort_inner.simps) (auto split: sum.splits)
    have len: "length (preds t) = length (preds s)"
      using t by (rule compare_swap_length)
    have "Q t (j + 1)"
      using less.prems(2) True t by (rule step)
    moreover have "length (preds t) - (j + 1) < length (preds s) - j"
      using True len by simp
    ultimately show ?thesis
      using less.hyps rest by blast
  next
    case False
    with less.prems(1) have "s' = s"
      by (subst (asm) sort_inner.simps) simp
    with False less.prems(2) show ?thesis by auto
  qed
qed

lemma sort_inner_length:
  "sort_inner s i j = Inr s' \<Longrightarrow> length (preds s') = length (preds s)"
proof -
  assume run: "sort_inner s i j = Inr s'"
  have "\<exists>m. length (preds s') = length (preds s) \<and> length (preds s') \<le> m"
  proof (rule sort_inner_rule [OF run, where Q = "\<lambda>t m. length (preds t) = length (preds s)"])
    show "length (preds s) = length (preds s)" by simp
  next
    fix t m t'
    assume "length (preds t) = length (preds s)" and "compare_swap t i m = Inr t'"
    then show "length (preds t') = length (preds s)"
      using compare_swap_length [of t i m t'] by simp
  qed
  then show ?thesis by blast
qed

text \<open>Lines 140-146, the outer loop \<open>for i := 0; i < len(preds)-1; i++\<close> from a given \<open>i\<close>.
  The bound \<open>len(preds)-1\<close> is a signed subtraction: it is \<open>-1\<close> on an empty slice.\<close>

function sort_outer :: "state \<Rightarrow> nat \<Rightarrow> error + state" where
  "sort_outer s i =
     (if int i < int (length (preds s)) - 1 then
        case sort_inner s i (i + 1) of
          Inl e \<Rightarrow> Inl e
        | Inr s' \<Rightarrow> sort_outer s' (i + 1)
      else Inr s)"
  by pat_completeness auto
termination
proof (relation "measure (\<lambda>(s, i). length (preds s) - i)")
  show "wf (measure (\<lambda>(s, i). length (preds s) - i))" by simp
next
  fix s :: state and i s'
  assume "int i < int (length (preds s)) - 1" and "sort_inner s i (i + 1) = Inr s'"
  then show "((s', i + 1), s, i) \<in> measure (\<lambda>(s, i). length (preds s) - i)"
    using sort_inner_length [of s i "i + 1" s'] by simp
qed

declare sort_outer.simps [simp del]

text \<open>
  Lines 151-161, the loop \<open>for i := 0; i < k; i++\<close> from a given \<open>i\<close>: it reads
  \<open>preds[i]\<close>, looks the label up only under the guard \<open>idx < len(labels)\<close> and appends
  one result.
\<close>

function collect :: "state \<Rightarrow> int \<Rightarrow> nat \<Rightarrow> error + state" where
  "collect s k i =
     (if int i < k then
        if \<not> i < length (preds s) then Inl IndexOutOfRange
        else
          let idx = index (preds s ! i);
              label = (if idx < length (labels s) then labels s ! idx else ''unknown'')
          in collect
               (s\<lparr>results := results s @ [\<lparr>Label = label, Confidence = value (preds s ! i)\<rparr>]\<rparr>)
               k (i + 1)
      else Inr s)"
  by pat_completeness auto
termination
  by (relation "measure (\<lambda>(s, k, i). nat (k - int i))") auto

declare collect.simps [simp del]

text \<open>
  \<open>getTopK\<close> itself: the two local slices start as nil, \<open>k\<close> is clamped to the number of
  entries (line 147), and the returned slice is the field \<open>results\<close> of the final state.
\<close>

definition getTopK :: "state \<Rightarrow> int \<Rightarrow> error + state" where
  "getTopK s k =
     (case sort_outer (range_preds (s\<lparr>preds := []\<rparr>) 0) 0 of
        Inl e \<Rightarrow> Inl e
      | Inr s' \<Rightarrow>
          let k' = (if k > int (length (preds s')) then int (length (preds s')) else k)
          in collect (s'\<lparr>results := []\<rparr>) k' 0)"

text \<open>A call from outside: the vocabulary and the probability vector in memory, no locals yet.\<close>

definition call :: "string list \<Rightarrow> real list \<Rightarrow> state" where
  "call ls ps = \<lparr>labels = ls, predictions = ps, preds = [], results = []\<rparr>"

text \<open>The result a ranked entry is turned into (lines 152-160), and the ranking order.\<close>

definition result_of :: "string list \<Rightarrow> pred \<Rightarrow> RecognitionResult" where
  "result_of ls p =
     \<lparr>Label = (if index p < length ls then ls ! index p else ''unknown''),
      Confidence = value p\<rparr>"

definition enumerate_preds :: "real list \<Rightarrow> pred list" where
  "enumerate_preds ps = map (\<lambda>i. \<lparr>index = i, value = ps ! i\<rparr>) [0..<length ps]"

definition descending :: "pred list \<Rightarrow> bool" where
  "descending xs = sorted_wrt (\<lambda>p q. value p \<ge> value q) xs"

subsection \<open>The loops of \<open>getTopK\<close>, one by one\<close>

lemma range_preds_eq:
  "range_preds s i =
     s\<lparr>preds := preds s @ map (\<lambda>j. \<lparr>index = j, value = predictions s ! j\<rparr>) [i..<length (predictions s)]\<rparr>"
proof (induction s i rule: range_preds.induct)
  case (1 s i)
  show ?case
  proof (cases "i < length (predictions s)")
    case True
    then show ?thesis
      using "1.IH" by (subst range_preds.simps) (simp add: upt_conv_Cons)
  next
    case False
    then show ?thesis by (subst range_preds.simps) simp
  qed
qed

lemma compare_swap_frame:
  "compare_swap s i j = Inr s' \<Longrightarrow>
     labels s' = labels s \<and> predictions s' = predictions s \<and> results s' = results s"
  by (auto simp: compare_swap_def split: if_splits)

lemma compare_swap_mset:
  "compare_swap s i j = Inr s' \<Longrightarrow> mset (preds s') = mset (preds s)"
  by (auto simp: compare_swap_def mset_swap split: if_splits)

lemma compare_swap_take:
  "compare_swap s i j = Inr s' \<Longrightarrow> i < j \<Longrightarrow> take i (preds s') = take i (preds s)"
  by (auto simp: compare_swap_def split: if_splits)

lemma compare_swap_ok:
  "i < length (preds s) \<Longrightarrow> j < length (preds s) \<Longrightarrow> \<exists>s'. compare_swap s i j = Inr s'"
  by (simp add: compare_swap_def)

lemma sort_inner_total:
  "i < length (preds s) \<Longrightarrow> \<exists>s'. sort_inner s i j = Inr s'"
proof (induction "length (preds s) - j" arbitrary: s j rule: less_induct)
  case less
  show ?case
  proof (cases "j < length (preds s)")
    case True
    with less.prems obtain t where t: "compare_swap s i j = Inr t"
      using compare_swap_ok by blast
    have len: "length (preds t) = length (preds s)"
      using t by (rule compare_swap_length)
    with less.prems True have "\<exists>s'. sort_inner t i (j + 1) = Inr s'"
      by (intro less.hyps) simp_all
    with True t show ?thesis
      by (subst sort_inner.simps) simp
  next
    case False
    then show ?thesis by (subst sort_inner.simps) simp
  qed
qed


lemma sort_inner_frame:
  assumes "sort_inner s i j = Inr s'"
  shows "labels s' = labels s \<and> predictions s' = predictions s \<and> results s' = results s"
proof -
  let ?Q = "\<lambda>t (m::nat). labels t = labels s \<and> predictions t = predictions s \<and> results t = results s"
  have "\<exists>m. ?Q s' m \<and> length (preds s') \<le> m"
    by (rule sort_inner_rule [OF assms, where Q = ?Q]) (auto dest: compare_swap_frame)
  then show ?thesis by blast
qed

lemma sort_inner_mset:
  assumes "sort_inner s i j = Inr s'"
  shows "mset (preds s') = mset (preds s)"
proof -
  let ?Q = "\<lambda>t (m::nat). mset (preds t) = mset (preds s)"
  have "\<exists>m. ?Q s' m \<and> length (preds s') \<le> m"
    by (rule sort_inner_rule [OF assms, where Q = ?Q]) (auto dest: compare_swap_mset)
  then show ?thesis by blast
qed

lemma sort_inner_take:
  assumes "sort_inner s i j = Inr s'" and "i < j"
  shows "take i (preds s') = take i (preds s)"
proof -
  let ?Q = "\<lambda>t (m::nat). i < m \<and> take i (preds t) = take i (preds s)"
  have "\<exists>m. ?Q s' m \<and> length (preds s') \<le> m"
    by (rule sort_inner_rule [OF assms(1), where Q = ?Q])
      (use assms(2) in \<open>auto dest: compare_swap_take\<close>)
  then show ?thesis by blast
qed

text \<open>After the body at \<open>j\<close>, position \<open>i\<close> dominates every position in \<open>(i, j]\<close>.\<close>

definition leads :: "pred list \<Rightarrow> nat \<Rightarrow> nat \<Rightarrow> bool" where
  "leads xs i j = (\<forall>m. i < m \<and> m < j \<and> m < length xs \<longrightarrow> value (xs ! m) \<le> value (xs ! i))"

lemma compare_swap_leads:
  assumes "compare_swap s i j = Inr s'" and "i < j" and "leads (preds s) i j"
  shows "leads (preds s') i (j + 1)"
proof -
  from assms(1) have j: "j < length (preds s)" and i: "i < length (preds s)"
    by (auto simp: compare_swap_def split: if_splits)
  show ?thesis
  proof (cases "value (preds s ! j) > value (preds s ! i)")
    case True
    with assms(1) i j have s': "preds s' = (preds s)[i := preds s ! j, j := preds s ! i]"
      by (auto simp: compare_swap_def)
    show ?thesis
      unfolding leads_def
    proof (intro allI impI)
      fix m assume m: "i < m \<and> m < j + 1 \<and> m < length (preds s')"
      have vi: "value (preds s' ! i) = value (preds s ! j)"
        using s' i j assms(2) by simp
      show "value (preds s' ! m) \<le> value (preds s' ! i)"
      proof (cases "m = j")
        case True
        then show ?thesis using s' i j assms(2) True \<open>value (preds s ! j) > value (preds s ! i)\<close> by simp
      next
        case False
        with m have mj: "m < j" by simp
        then have "preds s' ! m = preds s ! m"
          using s' m by simp
        moreover have "value (preds s ! m) \<le> value (preds s ! i)"
          using assms(3) m mj j unfolding leads_def by simp
        ultimately show ?thesis using vi True by simp
      qed
    qed
  next
    case False
    with assms(1) i j have s': "s' = s"
      by (auto simp: compare_swap_def)
    show ?thesis
      unfolding leads_def s'
    proof (intro allI impI)
      fix m assume m: "i < m \<and> m < j + 1 \<and> m < length (preds s)"
      show "value (preds s ! m) \<le> value (preds s ! i)"
      proof (cases "m = j")
        case True then show ?thesis using False by simp
      next
        case False
        with m assms(3) show ?thesis unfolding leads_def by simp
      qed
    qed
  qed
qed

lemma sort_inner_leads:
  assumes "sort_inner s i j = Inr s'" and "i < j" and "leads (preds s) i j"
  shows "\<forall>m. i < m \<and> m < length (preds s') \<longrightarrow> value (preds s' ! m) \<le> value (preds s' ! i)"
proof -
  let ?Q = "\<lambda>t (m::nat). i < m \<and> leads (preds t) i m"
  have "\<exists>m. ?Q s' m \<and> length (preds s') \<le> m"
    by (rule sort_inner_rule [OF assms(1), where Q = ?Q])
      (use assms(2,3) in \<open>auto dest: compare_swap_leads\<close>)
  then show ?thesis unfolding leads_def by auto
qed


text \<open>The outer invariant: every position before \<open>i\<close> dominates all later positions.\<close>

definition ranked_upto :: "nat \<Rightarrow> pred list \<Rightarrow> bool" where
  "ranked_upto i xs =
     (\<forall>a b. a < i \<and> a < b \<and> b < length xs \<longrightarrow> value (xs ! b) \<le> value (xs ! a))"

lemma ranked_uptoD:
  "ranked_upto i xs \<Longrightarrow> a < i \<Longrightarrow> a < b \<Longrightarrow> b < length xs \<Longrightarrow> value (xs ! b) \<le> value (xs ! a)"
  unfolding ranked_upto_def by blast

lemma drop_mset_eq:
  assumes "mset xs = mset ys" and "take i xs = take i ys"
  shows "mset (drop i xs) = mset (drop i ys)"
proof -
  have "mset (take i xs) + mset (drop i xs) = mset (take i ys) + mset (drop i ys)"
    using assms(1) by (simp flip: mset_append)
  with assms(2) show ?thesis by simp
qed

lemma nth_in_drop:
  assumes "i \<le> b" and "b < length xs"
  shows "xs ! b \<in> set (drop i xs)"
proof -
  have "drop i xs ! (b - i) = xs ! b" using assms by simp
  moreover have "b - i < length (drop i xs)" using assms by simp
  ultimately show ?thesis by (metis nth_mem)
qed

lemma in_drop_nth:
  assumes "x \<in> set (drop i xs)"
  shows "\<exists>c. i \<le> c \<and> c < length xs \<and> x = xs ! c"
proof -
  from assms obtain d where d: "d < length (drop i xs)" "drop i xs ! d = x"
    by (auto simp: in_set_conv_nth)
  then have "i + d < length xs" "xs ! (i + d) = x" by simp_all
  then show ?thesis by (intro exI [of _ "i + d"]) simp
qed

lemma ranked_upto_step:
  assumes inv: "ranked_upto i (preds s)"
    and run: "sort_inner s i (i + 1) = Inr t"
  shows "ranked_upto (i + 1) (preds t)"
proof -
  have len: "length (preds t) = length (preds s)"
    using run by (rule sort_inner_length)
  have tk: "take i (preds t) = take i (preds s)"
    using run by (rule sort_inner_take) simp
  have ms: "mset (drop i (preds t)) = mset (drop i (preds s))"
    using sort_inner_mset [OF run] tk by (rule drop_mset_eq)
  have lead: "\<forall>m. i < m \<and> m < length (preds t) \<longrightarrow> value (preds t ! m) \<le> value (preds t ! i)"
    using run by (rule sort_inner_leads) (simp_all add: leads_def)
  show ?thesis
    unfolding ranked_upto_def
  proof (intro allI impI)
    fix a b assume ab: "a < i + 1 \<and> a < b \<and> b < length (preds t)"
    show "value (preds t ! b) \<le> value (preds t ! a)"
    proof (cases "a = i")
      case True
      with ab lead show ?thesis by simp
    next
      case False
      with ab have a: "a < i" by simp
      have ta: "preds t ! a = preds s ! a"
        using a tk by (metis nth_take)
      show ?thesis
      proof (cases "b < i")
        case True
        then have "preds t ! b = preds s ! b"
          using tk by (metis nth_take)
        moreover have "value (preds s ! b) \<le> value (preds s ! a)"
          using inv a by (rule ranked_uptoD) (use ab len in simp_all)
        ultimately show ?thesis using ta by simp
      next
        case False
        then have "preds t ! b \<in> set (drop i (preds t))"
          using ab by (intro nth_in_drop) simp_all
        then have "preds t ! b \<in> set (drop i (preds s))"
          using ms by (metis set_mset_mset)
        from in_drop_nth [OF this]
        obtain c where c: "i \<le> c" "c < length (preds s)" "preds t ! b = preds s ! c"
          by blast
        have "value (preds s ! c) \<le> value (preds s ! a)"
          using inv a by (rule ranked_uptoD) (use a c in simp_all)
        with c(3) ta show ?thesis by simp
      qed
    qed
  qed
qed

lemma ranked_upto_descending:
  assumes "ranked_upto i xs" and "int (length xs) - 1 \<le> int i"
  shows "descending xs"
  unfolding descending_def sorted_wrt_iff_nth_less
proof (intro allI impI)
  fix a b assume "a < b" "b < length xs"
  moreover from this assms(2) have "a < i" by simp
  ultimately show "value (xs ! b) \<le> value (xs ! a)"
    using assms(1) by (intro ranked_uptoD [of i]) simp_all
qed

lemma sort_outer_spec:
  assumes "ranked_upto i (preds s)"
  shows "\<exists>s'. sort_outer s i = Inr s' \<and> labels s' = labels s \<and> predictions s' = predictions s
           \<and> results s' = results s \<and> mset (preds s') = mset (preds s) \<and> descending (preds s')"
  using assms
proof (induction "length (preds s) - i" arbitrary: s i rule: less_induct)
  case less
  show ?case
  proof (cases "int i < int (length (preds s)) - 1")
    case True
    then have "i < length (preds s)" by simp
    then obtain t where t: "sort_inner s i (i + 1) = Inr t"
      using sort_inner_total by blast
    have len: "length (preds t) = length (preds s)"
      using t by (rule sort_inner_length)
    have "ranked_upto (i + 1) (preds t)"
      using less.prems t by (rule ranked_upto_step)
    moreover have "length (preds t) - (i + 1) < length (preds s) - i"
      using True len by simp
    ultimately obtain s' where s': "sort_outer t (i + 1) = Inr s'" "labels s' = labels t"
      "predictions s' = predictions t" "results s' = results t"
      "mset (preds s') = mset (preds t)" "descending (preds s')"
      using less.hyps by blast
    have "sort_outer s i = Inr s'"
      using True t s'(1) by (subst sort_outer.simps) simp
    with s' sort_inner_frame [OF t] sort_inner_mset [OF t] show ?thesis by simp
  next
    case False
    then have "sort_outer s i = Inr s"
      by (subst sort_outer.simps) simp
    moreover have "descending (preds s)"
      using less.prems False by (intro ranked_upto_descending [of i]) simp_all
    ultimately show ?thesis by simp
  qed
qed


lemma collect_eq:
  assumes "k \<le> int (length (preds s))"
  shows "collect s k i =
           Inr (s\<lparr>results := results s @ map (result_of (labels s)) (take (nat k - i) (drop i (preds s)))\<rparr>)"
  using assms
proof (induction s k i rule: collect.induct)
  case (1 s k i)
  show ?case
  proof (cases "int i < k")
    case True
    with "1.prems" have i: "i < length (preds s)" by simp
    let ?r = "\<lparr>Label = (if index (preds s ! i) < length (labels s)
                          then labels s ! index (preds s ! i) else ''unknown''),
                Confidence = value (preds s ! i)\<rparr>"
    let ?t = "s\<lparr>results := results s @ [?r]\<rparr>"
    have r: "?r = result_of (labels s) (preds s ! i)"
      by (simp add: result_of_def)
    have IH: "collect ?t k (i + 1) =
        Inr (?t\<lparr>results := results ?t @ map (result_of (labels ?t)) (take (nat k - (i + 1)) (drop (i + 1) (preds ?t)))\<rparr>)"
      using "1.IH" [of "index (preds s ! i)" _] True i "1.prems" by (simp add: Let_def)
    have split: "take (nat k - i) (drop i (preds s)) =
        preds s ! i # take (nat k - (i + 1)) (drop (i + 1) (preds s))"
    proof -
      have "nat k - i = Suc (nat k - (i + 1))" using True by simp
      moreover have "drop i (preds s) = preds s ! i # drop (i + 1) (preds s)"
        using i by (simp add: Cons_nth_drop_Suc)
      ultimately show ?thesis by simp
    qed
    have "collect s k i = collect ?t k (i + 1)"
      using True i by (subst collect.simps) (simp add: Let_def)
    also note IH
    finally show ?thesis
      by (simp add: split r)
  next
    case False
    then have "nat k - i = 0" by simp
    with False show ?thesis by (subst collect.simps) simp
  qed
qed

lemma getTopK_spec:
  "\<exists>ranked. getTopK s k =
       Inr (s\<lparr>preds := ranked, results := map (result_of (labels s)) (take (nat k) ranked)\<rparr>)
     \<and> mset ranked = mset (enumerate_preds (predictions s)) \<and> descending ranked"
proof -
  let ?s1 = "range_preds (s\<lparr>preds := []\<rparr>) 0"
  have s1: "?s1 = s\<lparr>preds := enumerate_preds (predictions s)\<rparr>"
    by (simp add: range_preds_eq enumerate_preds_def)
  have "ranked_upto 0 (preds ?s1)"
    by (simp add: ranked_upto_def)
  from sort_outer_spec [OF this]
  obtain s2 where s2: "sort_outer ?s1 0 = Inr s2" "labels s2 = labels ?s1"
    "predictions s2 = predictions ?s1" "results s2 = results ?s1"
    "mset (preds s2) = mset (preds ?s1)" "descending (preds s2)"
    by blast
  let ?k = "if k > int (length (preds s2)) then int (length (preds s2)) else k"
  have "collect (s2\<lparr>results := []\<rparr>) ?k 0 =
      Inr (s2\<lparr>results := map (result_of (labels s2)) (take (nat ?k) (preds s2))\<rparr>)"
    by (subst collect_eq) simp_all
  moreover have "take (nat ?k) (preds s2) = take (nat k) (preds s2)"
    by simp
  moreover have "s2\<lparr>results := map (result_of (labels s)) (take (nat k) (preds s2))\<rparr> =
      s\<lparr>preds := preds s2, results := map (result_of (labels s)) (take (nat k) (preds s2))\<rparr>"
    using s2(2-4) s1 by (cases s2, cases s) simp
  ultimately have "getTopK s k =
      Inr (s\<lparr>preds := preds s2, results := map (result_of (labels s)) (take (nat k) (preds s2))\<rparr>)"
    using s2(1,2) s1 by (simp add: getTopK_def Let_def del: take_all_iff)
  with s2(5,6) s1 show ?thesis by auto
qed

text \<open>
  What the caller receives: the Go function returns the slice \<open>results\<close>, or panics.
\<close>

definition topK :: "string list \<Rightarrow> real list \<Rightarrow> int \<Rightarrow> error + RecognitionResult list" where
  "topK ls ps k = (case getTopK (call ls ps) k of Inl e \<Rightarrow> Inl e | Inr s \<Rightarrow> Inr (results s))"

lemmas run_simps = getTopK_def call_def topK_def range_preds.simps sort_outer.simps sort_inner.simps
  compare_swap_def collect.simps Let_def

lemma tie_run: "topK [''c0'', ''c1'', ''c2''] [1/2, 1/2, 9/10] 3 =
  Inr [\<lparr>Label = ''c2'', Confidence = 9/10\<rparr>, \<lparr>Label = ''c1'', Confidence = 1/2\<rparr>,
       \<lparr>Label = ''c0'', Confidence = 1/2\<rparr>]"
  by (simp add: run_simps)


lemma length_ranked:
  "mset ranked = mset (enumerate_preds ps) \<Longrightarrow> length ranked = length ps"
  by (metis size_mset length_map length_upt enumerate_preds_def diff_zero)

lemma descending_no_swap:
  assumes "descending (preds s)" and "i < j" and "j < length (preds s)"
  shows "compare_swap s i j = Inr s"
proof -
  have "value (preds s ! j) \<le> value (preds s ! i)"
    using assms unfolding descending_def sorted_wrt_iff_nth_less by blast
  with assms(2,3) show ?thesis by (simp add: compare_swap_def)
qed

lemma descending_inner:
  assumes "descending (preds s)" and "i < j"
  shows "sort_inner s i j = Inr s"
  using assms(2)
proof (induction "length (preds s) - j" arbitrary: j rule: less_induct)
  case less
  show ?case
  proof (cases "j < length (preds s)")
    case True
    then have "compare_swap s i j = Inr s"
      using assms(1) less.prems by (intro descending_no_swap)
    moreover have "sort_inner s i (j + 1) = Inr s"
      using True less.prems by (intro less.hyps) simp_all
    ultimately show ?thesis using True by (subst sort_inner.simps) simp
  next
    case False
    then show ?thesis by (subst sort_inner.simps) simp
  qed
qed

lemma descending_outer:
  assumes "descending (preds s)"
  shows "sort_outer s i = Inr s"
proof (induction "length (preds s) - i" arbitrary: i rule: less_induct)
  case less
  show ?case
  proof (cases "int i < int (length (preds s)) - 1")
    case True
    have "sort_inner s i (i + 1) = Inr s"
      using assms by (rule descending_inner) simp
    moreover have "sort_outer s (i + 1) = Inr s"
      using True by (intro less.hyps) simp
    ultimately show ?thesis using True by (subst sort_outer.simps) simp
  next
    case False
    then show ?thesis by (subst sort_outer.simps) simp
  qed
qed

lemma descending_enumerate:
  assumes "sorted_wrt (\<lambda>x y. x \<ge> y) ps"
  shows "descending (enumerate_preds ps)"
  using assms unfolding descending_def enumerate_preds_def sorted_wrt_iff_nth_less
  by simp


lemma getTopK_results:
  obtains ranked where
    "getTopK s k = Inr (s\<lparr>preds := ranked, results := map (result_of (labels s)) (take (nat k) ranked)\<rparr>)"
    "mset ranked = mset (enumerate_preds (predictions s))" "descending ranked"
    "length ranked = length (predictions s)"
  using getTopK_spec [of s k] length_ranked by blast

lemma ranked_entry:
  assumes "mset ranked = mset (enumerate_preds ps)" and "i < length ranked"
  shows "index (ranked ! i) < length ps \<and> value (ranked ! i) = ps ! index (ranked ! i)"
proof -
  have "ranked ! i \<in> set (enumerate_preds ps)"
    using assms by (metis nth_mem set_mset_mset)
  then show ?thesis by (auto simp: enumerate_preds_def)
qed

text \<open>
  Claim C1, as the code has it. For every probability vector and every \<open>k\<close>, \<open>getTopK\<close>
  returns without a panic; its ranking is a permutation of the index/confidence pairs of the
  vector in non-increasing order of confidence, and the results are the first \<open>k\<close> ranked
  entries, in that order. The exchange sort keeps no order among equal confidences: for
  \<open>[0.5, 0.5, 0.9]\<close> and \<open>k = 3\<close> the order is index 2, index 1, index 0.
\<close>

theorem getTopK_descending:
  "\<exists>s'. getTopK s k = Inr s'
     \<and> mset (preds s') = mset (enumerate_preds (predictions s))
     \<and> descending (preds s')
     \<and> results s' = map (result_of (labels s)) (take (nat k) (preds s'))
     \<and> sorted_wrt (\<lambda>a b. Confidence a \<ge> Confidence b) (results s')
     \<and> topK [''c0'', ''c1'', ''c2''] [1/2, 1/2, 9/10] 3 =
         Inr [\<lparr>Label = ''c2'', Confidence = 9/10\<rparr>, \<lparr>Label = ''c1'', Confidence = 1/2\<rparr>,
              \<lparr>Label = ''c0'', Confidence = 1/2\<rparr>]"
proof -
  obtain ranked where r:
    "getTopK s k = Inr (s\<lparr>preds := ranked, results := map (result_of (labels s)) (take (nat k) ranked)\<rparr>)"
    "mset ranked = mset (enumerate_preds (predictions s))" "descending ranked"
    by (rule getTopK_results)
  have "sorted_wrt (\<lambda>p q. value p \<ge> value q) (take (nat k) ranked)"
    using r(3) unfolding descending_def by (rule sorted_wrt_take)
  then have "sorted_wrt (\<lambda>a b. Confidence a \<ge> Confidence b)
      (map (result_of (labels s)) (take (nat k) ranked))"
    by (simp add: sorted_wrt_map result_of_def)
  with r tie_run show ?thesis by simp
qed

text \<open>
  Claim C6, as the code has it. The number of results is \<open>k\<close> clamped to the length of the
  probability vector (and to 0 from below); the size of the vocabulary plays no part.
\<close>

theorem getTopK_length:
  "\<exists>s'. getTopK s k = Inr s'
     \<and> int (length (results s')) = max 0 (min k (int (length (predictions s))))"
proof -
  obtain ranked where r:
    "getTopK s k = Inr (s\<lparr>preds := ranked, results := map (result_of (labels s)) (take (nat k) ranked)\<rparr>)"
    "length ranked = length (predictions s)"
    by (rule getTopK_results)
  then show ?thesis by auto
qed

text \<open>
  Claim C9. \<open>getTopK\<close> returns, and in the state it returns the vocabulary and the
  probability vector are what they were at the call: the loops write only \<open>preds\<close> and
  \<open>results\<close>.
\<close>

theorem getTopK_frame:
  "\<exists>s'. getTopK s k = Inr s' \<and> labels s' = labels s \<and> predictions s' = predictions s"
proof -
  obtain ranked where
    "getTopK s k = Inr (s\<lparr>preds := ranked, results := map (result_of (labels s)) (take (nat k) ranked)\<rparr>)"
    by (rule getTopK_results)
  then show ?thesis by simp
qed

text \<open>
  Claim C10. \<open>getTopK\<close> returns for every vocabulary, vector and \<open>k\<close>, with no index out
  of range; on an empty vector, and for every \<open>k \<le> 0\<close>, the result is empty.
\<close>

theorem getTopK_total:
  "\<exists>s'. getTopK s k = Inr s' \<and> (predictions s = [] \<or> k \<le> 0 \<longrightarrow> results s' = [])"
proof -
  obtain ranked where r:
    "getTopK s k = Inr (s\<lparr>preds := ranked, results := map (result_of (labels s)) (take (nat k) ranked)\<rparr>)"
    "length ranked = length (predictions s)"
    by (rule getTopK_results)
  then show ?thesis by auto
qed

text \<open>
  Claim C8. On a vector that is already in descending order, with \<open>k\<close> its length, no swap
  happens: the ranking is the vector's own order (class indices \<open>0, 1, ...\<close>) and the
  confidences of the results are the vector itself.
\<close>

theorem getTopK_sorted_input:
  assumes "sorted_wrt (\<lambda>x y. x \<ge> y) (predictions s)"
  shows "\<exists>s'. getTopK s (int (length (predictions s))) = Inr s'
     \<and> preds s' = enumerate_preds (predictions s)
     \<and> map index (preds s') = [0..<length (predictions s)]
     \<and> map Confidence (results s') = predictions s"
proof -
  let ?s1 = "range_preds (s\<lparr>preds := []\<rparr>) 0"
  let ?e = "enumerate_preds (predictions s)"
  have s1: "?s1 = s\<lparr>preds := ?e\<rparr>"
    by (simp add: range_preds_eq enumerate_preds_def)
  have "descending (preds ?s1)"
    using assms by (simp add: s1 descending_enumerate)
  then have so: "sort_outer ?s1 0 = Inr ?s1"
    by (rule descending_outer)
  have len: "length ?e = length (predictions s)"
    by (simp add: enumerate_preds_def)
  have "collect (?s1\<lparr>results := []\<rparr>) (int (length (predictions s))) 0 =
      Inr (s\<lparr>preds := ?e, results := map (result_of (labels s)) ?e\<rparr>)"
    by (subst collect_eq) (simp_all add: s1 len)
  then have "getTopK s (int (length (predictions s))) =
      Inr (s\<lparr>preds := ?e, results := map (result_of (labels s)) ?e\<rparr>)"
    using so len by (simp add: getTopK_def Let_def s1)
  moreover have "map index ?e = [0..<length (predictions s)]"
    by (simp add: enumerate_preds_def comp_def)
  moreover have "map Confidence (map (result_of (labels s)) ?e) = predictions s"
    by (simp add: enumerate_preds_def result_of_def comp_def map_nth)
  ultimately show ?thesis by simp
qed


lemma top_is_max:
  assumes ms: "mset ranked = mset (enumerate_preds ps)" and d: "descending ranked"
    and m: "m < length ps" and mx: "\<forall>j < length ps. j \<noteq> m \<longrightarrow> ps ! j < ps ! m"
  shows "ranked ! 0 = \<lparr>index = m, value = ps ! m\<rparr>"
proof -
  have len: "length ranked = length ps"
    using ms by (rule length_ranked)
  have "\<lparr>index = m, value = ps ! m\<rparr> \<in> set (enumerate_preds ps)"
    using m by (auto simp: enumerate_preds_def)
  then have "\<lparr>index = m, value = ps ! m\<rparr> \<in> set ranked"
    using ms by (metis set_mset_mset)
  then obtain c where c: "c < length ranked" "ranked ! c = \<lparr>index = m, value = ps ! m\<rparr>"
    by (auto simp: in_set_conv_nth)
  have ge: "value (ranked ! 0) \<ge> ps ! m"
  proof (cases "c = 0")
    case True
    with c show ?thesis by simp
  next
    case False
    then have "value (ranked ! 0) \<ge> value (ranked ! c)"
      using d c(1) unfolding descending_def sorted_wrt_iff_nth_less by simp
    with c show ?thesis by simp
  qed
  have e: "index (ranked ! 0) < length ps \<and> value (ranked ! 0) = ps ! index (ranked ! 0)"
    using ms by (rule ranked_entry) (use len m in auto)
  have "index (ranked ! 0) = m"
  proof (rule ccontr)
    assume "index (ranked ! 0) \<noteq> m"
    with e mx have "ps ! index (ranked ! 0) < ps ! m" by blast
    with e ge show False by simp
  qed
  with e show ?thesis by (cases "ranked ! 0") simp
qed

text \<open>
  Claim C7. \<open>getTopK\<close> never panics. Every one of the \<open>min k n\<close> selected entries is in the
  result, at its rank, with the confidence the vector has at its class index, and with the
  label of that index when the vocabulary has one and \<open>unknown\<close> otherwise. In particular,
  with two labels and three probabilities whose maximum is at index 2, top-1 is the single
  result \<open>unknown\<close> with that maximum as its confidence.
\<close>

theorem getTopK_unknown_label:
  "\<exists>s'. getTopK s k = Inr s'
     \<and> length (results s') = min (nat k) (length (predictions s))
     \<and> (\<forall>i < length (results s').
          index (preds s' ! i) < length (predictions s)
          \<and> Confidence (results s' ! i) = predictions s ! index (preds s' ! i)
          \<and> Label (results s' ! i) =
              (if index (preds s' ! i) < length (labels s)
               then labels s ! index (preds s' ! i) else ''unknown''))
     \<and> (k = 1 \<and> length (labels s) = 2 \<and> length (predictions s) = 3
          \<and> predictions s ! 0 < predictions s ! 2 \<and> predictions s ! 1 < predictions s ! 2
        \<longrightarrow> results s' = [\<lparr>Label = ''unknown'', Confidence = predictions s ! 2\<rparr>])"
proof -
  obtain ranked where r:
    "getTopK s k = Inr (s\<lparr>preds := ranked, results := map (result_of (labels s)) (take (nat k) ranked)\<rparr>)"
    "mset ranked = mset (enumerate_preds (predictions s))" "descending ranked"
    "length ranked = length (predictions s)"
    by (rule getTopK_results)
  let ?s' = "s\<lparr>preds := ranked, results := map (result_of (labels s)) (take (nat k) ranked)\<rparr>"
  have len: "length (results ?s') = min (nat k) (length (predictions s))"
    using r(4) by simp
  have each: "\<forall>i < length (results ?s').
      index (preds ?s' ! i) < length (predictions s)
      \<and> Confidence (results ?s' ! i) = predictions s ! index (preds ?s' ! i)
      \<and> Label (results ?s' ! i) =
          (if index (preds ?s' ! i) < length (labels s)
           then labels s ! index (preds ?s' ! i) else ''unknown'')"
  proof (intro allI impI)
    fix i assume i: "i < length (results ?s')"
    then have ir: "i < length ranked" and ik: "i < nat k" by simp_all
    have "results ?s' ! i = result_of (labels s) (ranked ! i)"
      using ir ik by simp
    moreover note ranked_entry [OF r(2) ir]
    ultimately show "index (preds ?s' ! i) < length (predictions s)
      \<and> Confidence (results ?s' ! i) = predictions s ! index (preds ?s' ! i)
      \<and> Label (results ?s' ! i) =
          (if index (preds ?s' ! i) < length (labels s)
           then labels s ! index (preds ?s' ! i) else ''unknown'')"
      by (simp add: result_of_def)
  qed
  have top: "results ?s' = [\<lparr>Label = ''unknown'', Confidence = predictions s ! 2\<rparr>]"
    if h: "k = 1 \<and> length (labels s) = 2 \<and> length (predictions s) = 3
          \<and> predictions s ! 0 < predictions s ! 2 \<and> predictions s ! 1 < predictions s ! 2"
  proof -
    have "\<forall>j < length (predictions s). j \<noteq> 2 \<longrightarrow> predictions s ! j < predictions s ! 2"
    proof (intro allI impI)
      fix j assume "j < length (predictions s)" "j \<noteq> 2"
      with h have "j = 0 \<or> j = 1" by auto
      with h show "predictions s ! j < predictions s ! 2" by auto
    qed
    with r(2,3) h have "ranked ! 0 = \<lparr>index = 2, value = predictions s ! 2\<rparr>"
      by (intro top_is_max) simp_all
    moreover have "take (nat k) ranked = [ranked ! 0]"
      using h r(4) by (cases ranked) simp_all
    ultimately show ?thesis using h by (simp add: result_of_def)
  qed
  from r(1) len each top show ?thesis by blast
qed

text \<open>
  The instance of claim C7 at the vocabulary \<open>[cat, dog]\<close> and the vector \<open>[0.1, 0.2, 0.7]\<close>.
\<close>

theorem getTopK_unknown_label_witness:
  "topK [''cat'', ''dog''] [1/10, 2/10, 7/10] 1 = Inr [\<lparr>Label = ''unknown'', Confidence = 7/10\<rparr>]"
  using getTopK_unknown_label [of "call [''cat'', ''dog''] [1/10, 2/10, 7/10]" 1]
  by (auto simp: topK_def call_def)

text \<open>
  The instance of claim C8 at the sorted vector \<open>[0.9, 0.5, 0.5]\<close>, which has a tie.
\<close>

theorem getTopK_sorted_input_witness:
  "sorted_wrt (\<lambda>x y. x \<ge> y) [9/10, 1/2, 1/2 :: real]
   \<and> (\<exists>s'. getTopK (call [''cat'', ''dog'', ''emu''] [9/10, 1/2, 1/2]) 3 = Inr s'
        \<and> preds s' = enumerate_preds [9/10, 1/2, 1/2]
        \<and> map Confidence (results s') = [9/10, 1/2, 1/2])"
  using getTopK_sorted_input [of "call [''cat'', ''dog'', ''emu''] [9/10, 1/2, 1/2]"]
  by (auto simp: call_def)

text \<open>
  The instances of claim C10 at an empty vector with \<open>k = 5\<close> and at \<open>k = -1\<close>.
\<close>

theorem getTopK_total_witness:
  "(\<exists>s'. getTopK (call [''cat''] []) 5 = Inr s' \<and> results s' = [])
   \<and> (\<exists>s'. getTopK (call [''cat''] [3/10, 7/10]) (- 1) = Inr s' \<and> results s' = [])"
  using getTopK_total [of "call [''cat''] []" 5] getTopK_total [of "call [''cat''] [3/10, 7/10]" "- 1"]
  by (auto simp: call_def)

text \<open>
  Claim C1 as stated fails on the vector it names. With labels that spell out the class
  index, \<open>[0.5, 0.5, 0.9]\<close> and \<open>k = 3\<close> give index 2, index 1, index 0: the swap of
  positions 0 and 2 moves the entry of index 0 behind the entry of index 1, and no later
  comparison is strict.
\<close>

theorem getTopK_tie_counterexample:
  "topK [''c0'', ''c1'', ''c2''] [1/2, 1/2, 9/10] 3 =
     Inr [\<lparr>Label = ''c2'', Confidence = 9/10\<rparr>, \<lparr>Label = ''c1'', Confidence = 1/2\<rparr>,
          \<lparr>Label = ''c0'', Confidence = 1/2\<rparr>]
   \<and> topK [''c0'', ''c1'', ''c2''] [1/2, 1/2, 9/10] 3 \<noteq>
     Inr [\<lparr>Label = ''c2'', Confidence = 9/10\<rparr>, \<lparr>Label = ''c0'', Confidence = 1/2\<rparr>,
          \<lparr>Label = ''c1'', Confidence = 1/2\<rparr>]"
  by (simp add: run_simps)

text \<open>
  Claim C6 as stated fails when the vector is longer than the vocabulary: two labels, three
  probabilities and \<open>k = 5\<close> give three results, not \<open>min 5 2\<close>.
\<close>

theorem getTopK_length_counterexample:
  "topK [''cat'', ''dog''] [1/10, 2/10, 7/10] 5 =
     Inr [\<lparr>Label = ''unknown'', Confidence = 7/10\<rparr>, \<lparr>Label = ''dog'', Confidence = 2/10\<rparr>,
          \<lparr>Label = ''cat'', Confidence = 1/10\<rparr>]
   \<and> length [\<lparr>Label = ''unknown'', Confidence = 7/10\<rparr>, \<lparr>Label = ''dog'', Confidence = 2/10\<rparr>,
          \<lparr>Label = ''cat'', Confidence = 1/10 :: real\<rparr>] \<noteq> min 5 (length [''cat'', ''dog''])"
  by (simp add: run_simps)

section \<open>The tensor preprocessor: \<open>preprocessImage\<close> (main.go, lines 23-30 and 64-103)\<close>

text \<open>
  An \<open>image.Image\<close> is an interface: its bounds and, for every point, a colour whose
  method \<open>RGBA()\<close> returns four \<open>uint32\<close> samples. The model keeps exactly that: the
  rectangle and the function from a point to the four samples of \<open>At(x, y).RGBA()\<close>.
\<close>

record Point =
  X :: int
  Y :: int

record Rectangle =
  Min_pt :: Point
  Max_pt :: Point

definition Dx :: "Rectangle \<Rightarrow> int" where
  "Dx r = X (Max_pt r) - X (Min_pt r)"

definition Dy :: "Rectangle \<Rightarrow> int" where
  "Dy r = Y (Max_pt r) - Y (Min_pt r)"

type_synonym rgba = "32 word \<times> 32 word \<times> 32 word \<times> 32 word"

record Image =
  Bounds :: Rectangle
  At_RGBA :: "int \<Rightarrow> int \<Rightarrow> rgba"

text \<open>The Go values handed to \<open>tf.NewTensor\<close>: \<open>[1]int{1}\<close> and the \<open>[][][][]float32\<close> batch.\<close>

datatype tvalue =
    IntArray "int list"
  | Float4 "real list list list list"

text \<open>
  What \<open>preprocessImage\<close> uses and this repository does not contain:
  \<^item> \<open>Resize w h img\<close> is \<open>resize.Resize(w, h, img, resize.Lanczos3)\<close> of the package
    \<open>github.com/nfnt/resize\<close>, with its two \<open>uint\<close> arguments;
  \<^item> \<open>NewTensor v\<close> is the error of \<open>tf.NewTensor(v)\<close>, \<open>None\<close> when it returns a tensor;
    the tensor itself is modelled by the Go value it was built from;
  \<^item> \<open>f32\<close> is the rounding of a real number to \<open>float32\<close>, applied by the conversion
    \<open>float32(r)\<close> and by the \<open>float32\<close> division.
  The package variables \<open>inputHeight\<close> and \<open>inputWidth\<close> (lines 28-29) are the record
  \<open>config\<close>; both are 224 in the source.
\<close>

record extern =
  Resize :: "64 word \<Rightarrow> 64 word \<Rightarrow> Image \<Rightarrow> Image"
  NewTensor :: "tvalue \<Rightarrow> string option"
  f32 :: "real \<Rightarrow> real"

record config =
  inputHeight :: int
  inputWidth :: int

definition source_config :: config where
  "source_config = \<lparr>inputHeight = 224, inputWidth = 224\<rparr>"

text \<open>Lines 74-77: the three values appended for the pixel at \<open>(x, y)\<close>; alpha is dropped.\<close>

definition pixel_floats :: "extern \<Rightarrow> Image \<Rightarrow> nat \<Rightarrow> nat \<Rightarrow> real list" where
  "pixel_floats e resized x y =
     (case At_RGBA resized (int x) (int y) of
        (r, g, b, _) \<Rightarrow>
          [f32 e (f32 e (real (unat r)) / 65535),
           f32 e (f32 e (real (unat g)) / 65535),
           f32 e (f32 e (real (unat b)) / 65535)])"

text \<open>Lines 73-78, the loop \<open>for x := 0; x < width; x++\<close> from a given \<open>x\<close>.\<close>

function norm_row :: "extern \<Rightarrow> Image \<Rightarrow> int \<Rightarrow> nat \<Rightarrow> real list \<Rightarrow> nat \<Rightarrow> real list" where
  "norm_row e resized width y imgData x =
     (if int x < width then
        norm_row e resized width y (imgData @ pixel_floats e resized x y) (x + 1)
      else imgData)"
  by pat_completeness auto
termination
  by (relation "measure (\<lambda>(e, resized, width, y, imgData, x). nat (width - int x))") auto

declare norm_row.simps [simp del]

text \<open>Lines 72-79, the loop \<open>for y := 0; y < height; y++\<close> from a given \<open>y\<close>.\<close>

function norm_rows :: "extern \<Rightarrow> Image \<Rightarrow> int \<Rightarrow> int \<Rightarrow> real list \<Rightarrow> nat \<Rightarrow> real list" where
  "norm_rows e resized width height imgData y =
     (if int y < height then
        norm_rows e resized width height (norm_row e resized width y imgData 0) (y + 1)
      else imgData)"
  by pat_completeness auto
termination
  by (relation "measure (\<lambda>(e, resized, width, height, imgData, y). nat (height - int y))") auto

declare norm_rows.simps [simp del]

text \<open>
  Go's \<open>copy(dst, src)\<close> overwrites the first \<open>min(len(dst), len(src))\<close> elements of \<open>dst\<close>.
\<close>

definition copy_slice :: "'a list \<Rightarrow> 'a list \<Rightarrow> 'a list" where
  "copy_slice dst src = take (length dst) src @ drop (length src) dst"

text \<open>
  Lines 89-94, the loop \<open>for x := 0; x < width; x++\<close> of the packing, from a given \<open>x\<close>.
  The slice expression \<open>imgData[idx:idx+3]\<close> panics when \<open>idx+3\<close> exceeds the capacity
  of \<open>imgData\<close>; the model panics as soon as it exceeds the length, which is no larger.
  The assignment \<open>batch[0][y][x] = p\<close> indexes \<open>batch[0]\<close> and then its row.
\<close>

function pack_row ::
  "real list \<Rightarrow> int \<Rightarrow> real list list list \<Rightarrow> nat \<Rightarrow> nat \<Rightarrow> nat \<Rightarrow> error + real list list list \<times> nat"
where
  "pack_row imgData width batch0 y idx x =
     (if int x < width then
        if idx + 3 > length imgData then Inl SliceBoundsOutOfRange
        else
          let p = copy_slice (replicate 3 0) (take 3 (drop idx imgData))
          in if \<not> (y < length batch0 \<and> x < length (batch0 ! y)) then Inl IndexOutOfRange
             else pack_row imgData width (batch0[y := (batch0 ! y)[x := p]]) y (idx + 3) (x + 1)
      else Inr (batch0, idx))"
  by pat_completeness auto
termination
  by (relation "measure (\<lambda>(imgData, width, batch0, y, idx, x). nat (width - int x))") auto

declare pack_row.simps [simp del]

text \<open>
  Lines 87-95, the loop \<open>for y := 0; y < height; y++\<close> of the packing, from a given \<open>y\<close>:
  \<open>make([][]float32, width)\<close> panics on a negative length, and the new row is stored in
  \<open>batch[0][y]\<close> before the inner loop fills it.
\<close>

function pack_rows ::
  "real list \<Rightarrow> int \<Rightarrow> int \<Rightarrow> real list list list \<Rightarrow> nat \<Rightarrow> nat \<Rightarrow> error + real list list list \<times> nat"
where
  "pack_rows imgData width height batch0 idx y =
     (if int y < height then
        if width < 0 then Inl MakeSliceLenOutOfRange
        else if \<not> y < length batch0 then Inl IndexOutOfRange
        else
          case pack_row imgData width (batch0[y := replicate (nat width) []]) y idx 0 of
            Inl err \<Rightarrow> Inl err
          | Inr (batch0', idx') \<Rightarrow> pack_rows imgData width height batch0' idx' (y + 1)
      else Inr (batch0, idx))"
  by pat_completeness auto
termination
  by (relation "measure (\<lambda>(imgData, width, height, batch0, idx, y). nat (height - int y))") auto

declare pack_rows.simps [simp del]

text \<open>
  \<open>preprocessImage\<close>: resize to the configured size (the conversions \<open>uint(inputWidth)\<close>
  and \<open>uint(inputHeight)\<close> wrap a negative value), normalise, build the throw-away tensor
  of line 80, pack, and build the tensor of line 97 from the batch.
\<close>

definition preprocessImage :: "extern \<Rightarrow> config \<Rightarrow> Image \<Rightarrow> error + tvalue" where
  "preprocessImage e c img =
     (let resized = Resize e (word_of_int (inputWidth c)) (word_of_int (inputHeight c)) img;
          bounds = Bounds resized;
          width = Dx bounds;
          height = Dy bounds;
          imgData = norm_rows e resized width height [] 0
      in case NewTensor e (IntArray [1]) of
           Some msg \<Rightarrow> Inl (NewTensorError msg)
         | None \<Rightarrow>
             if height < 0 then Inl MakeSliceLenOutOfRange
             else
               case pack_rows imgData width height (replicate (nat height) []) 0 0 of
                 Inl err \<Rightarrow> Inl err
               | Inr (batch0, idx) \<Rightarrow>
                   (case NewTensor e (Float4 [batch0]) of
                      Some msg \<Rightarrow> Inl (NewTensorError msg)
                    | None \<Rightarrow> Inr (Float4 [batch0])))"


text \<open>The shape of a four-dimensional value: every level has the stated length.\<close>

definition has_shape :: "real list list list list \<Rightarrow> nat \<Rightarrow> nat \<Rightarrow> nat \<Rightarrow> nat \<Rightarrow> bool" where
  "has_shape b n h w ch =
     (length b = n \<and> list_all (\<lambda>img. length img = h
        \<and> list_all (\<lambda>row. length row = w \<and> list_all (\<lambda>px. length px = ch) row) img) b)"


lemma norm_row_eq:
  "norm_row e r width y acc x = acc @ concat (map (\<lambda>x. pixel_floats e r x y) [x..<nat width])"
proof (induction e r width y acc x rule: norm_row.induct)
  case (1 e r width y acc x)
  show ?case
  proof (cases "int x < width")
    case True
    then have "[x..<nat width] = x # [x + 1..<nat width]"
      by (simp add: upt_conv_Cons)
    with True "1.IH" show ?thesis
      by (subst norm_row.simps) simp
  next
    case False
    then show ?thesis by (subst norm_row.simps) simp
  qed
qed

lemma norm_rows_eq:
  "norm_rows e r width height acc y =
     acc @ concat (map (\<lambda>y. concat (map (\<lambda>x. pixel_floats e r x y) [0..<nat width])) [y..<nat height])"
proof (induction e r width height acc y rule: norm_rows.induct)
  case (1 e r width height acc y)
  show ?case
  proof (cases "int y < height")
    case True
    then have "[y..<nat height] = y # [y + 1..<nat height]"
      by (simp add: upt_conv_Cons)
    with True "1.IH" show ?thesis
      by (subst norm_rows.simps) (simp add: norm_row_eq)
  next
    case False
    then show ?thesis by (subst norm_rows.simps) simp
  qed
qed

lemma copy_slice_full: "length src = length dst \<Longrightarrow> copy_slice dst src = src"
  by (simp add: copy_slice_def)

lemma pack_row_eq:
  assumes "drop idx imgData = concat (map g [x..<w]) @ rest"
    and "\<forall>x. length (g x) = 3"
    and "y < length b0" and "length (b0 ! y) = w"
  shows "\<exists>idx'. pack_row imgData (int w) b0 y idx x =
            Inr (b0[y := take x (b0 ! y) @ map g [x..<w]], idx')
          \<and> drop idx' imgData = rest"
  using assms(1,3,4)
proof (induction "w - x" arbitrary: b0 idx x rule: less_induct)
  case less
  show ?case
  proof (cases "x < w")
    case True
    then have upt: "[x..<w] = x # [x + 1..<w]"
      by (simp add: upt_conv_Cons)
    have d: "drop idx imgData = g x @ concat (map g [x + 1..<w]) @ rest"
      using less.prems(1) upt by simp
    have g3: "length (g x) = 3" using assms(2) by simp
    have "length (drop idx imgData) \<ge> 3"
      using d g3 by simp
    then have inb: "idx + 3 \<le> length imgData" by simp
    have tk: "take 3 (drop idx imgData) = g x"
      using d g3 by simp
    have p: "copy_slice (replicate 3 0) (take 3 (drop idx imgData)) = g x"
      using tk g3 by (simp add: copy_slice_full)
    let ?b1 = "b0[y := (b0 ! y)[x := g x]]"
    have d': "drop (idx + 3) imgData = concat (map g [x + 1..<w]) @ rest"
    proof -
      have "drop (idx + 3) imgData = drop 3 (drop idx imgData)"
        by (simp add: add.commute)
      also have "\<dots> = concat (map g [x + 1..<w]) @ rest"
        using d g3 by simp
      finally show ?thesis .
    qed
    have b1y: "?b1 ! y = (b0 ! y)[x := g x]"
      using less.prems(2) by simp
    have "\<exists>idx'. pack_row imgData (int w) ?b1 y (idx + 3) (x + 1) =
            Inr (?b1[y := take (x + 1) (?b1 ! y) @ map g [x + 1..<w]], idx')
          \<and> drop idx' imgData = rest"
      using True d' less.prems(2,3) b1y by (intro less.hyps) simp_all
    then obtain idx' where run: "pack_row imgData (int w) ?b1 y (idx + 3) (x + 1) =
            Inr (?b1[y := take (x + 1) (?b1 ! y) @ map g [x + 1..<w]], idx')"
      and rest: "drop idx' imgData = rest"
      by blast
    have "take (x + 1) (?b1 ! y) = take x (b0 ! y) @ [g x]"
      using b1y True less.prems(3) by (simp add: take_Suc_conv_app_nth)
    then have fin: "?b1[y := take (x + 1) (?b1 ! y) @ map g [x + 1..<w]] =
        b0[y := take x (b0 ! y) @ map g [x..<w]]"
      using upt by simp
    have "pack_row imgData (int w) b0 y idx x = pack_row imgData (int w) ?b1 y (idx + 3) (x + 1)"
      using True inb p less.prems(2,3) by (subst pack_row.simps) (simp add: Let_def)
    with run fin rest show ?thesis by simp
  next
    case False
    then have "pack_row imgData (int w) b0 y idx x = Inr (b0, idx)"
      by (subst pack_row.simps) simp
    moreover have "b0[y := take x (b0 ! y) @ map g [x..<w]] = b0"
      using False less.prems(3) by simp
    moreover have "drop idx imgData = rest"
      using False less.prems(1) by simp
    ultimately show ?thesis by simp
  qed
qed

lemma pack_rows_eq:
  assumes "drop idx imgData = concat (map (\<lambda>y. concat (map (g y) [0..<w])) [y..<h])"
    and "\<forall>y x. length (g y x) = 3"
    and "length b0 = h"
  shows "\<exists>idx'. pack_rows imgData (int w) (int h) b0 idx y =
            Inr (take y b0 @ map (\<lambda>y. map (g y) [0..<w]) [y..<h], idx')"
  using assms(1,3)
proof (induction "h - y" arbitrary: b0 idx y rule: less_induct)
  case less
  show ?case
  proof (cases "y < h")
    case True
    then have upt: "[y..<h] = y # [y + 1..<h]"
      by (simp add: upt_conv_Cons)
    let ?rest = "concat (map (\<lambda>y. concat (map (g y) [0..<w])) [y + 1..<h])"
    let ?b1 = "b0[y := replicate w []]"
    have d: "drop idx imgData = concat (map (g y) [0..<w]) @ ?rest"
      using less.prems(1) upt by simp
    have "\<exists>idx'. pack_row imgData (int w) ?b1 y idx 0 =
            Inr (?b1[y := take 0 (?b1 ! y) @ map (g y) [0..<w]], idx')
          \<and> drop idx' imgData = ?rest"
      using d assms(2) True less.prems(2) by (intro pack_row_eq) simp_all
    then obtain idx1 where row: "pack_row imgData (int w) ?b1 y idx 0 =
            Inr (b0[y := map (g y) [0..<w]], idx1)"
      and rest: "drop idx1 imgData = ?rest"
      by auto
    let ?b2 = "b0[y := map (g y) [0..<w]]"
    have "\<exists>idx'. pack_rows imgData (int w) (int h) ?b2 idx1 (y + 1) =
            Inr (take (y + 1) ?b2 @ map (\<lambda>y. map (g y) [0..<w]) [y + 1..<h], idx')"
      using True rest less.prems(2) by (intro less.hyps) simp_all
    then obtain idx' where run: "pack_rows imgData (int w) (int h) ?b2 idx1 (y + 1) =
            Inr (take (y + 1) ?b2 @ map (\<lambda>y. map (g y) [0..<w]) [y + 1..<h], idx')"
      by blast
    have "take (y + 1) ?b2 = take y b0 @ [map (g y) [0..<w]]"
      using True less.prems(2) by (simp add: take_Suc_conv_app_nth)
    then have fin: "take (y + 1) ?b2 @ map (\<lambda>y. map (g y) [0..<w]) [y + 1..<h] =
        take y b0 @ map (\<lambda>y. map (g y) [0..<w]) [y..<h]"
      using upt by simp
    have "pack_rows imgData (int w) (int h) b0 idx y =
        pack_rows imgData (int w) (int h) ?b2 idx1 (y + 1)"
      using True less.prems(2) row by (subst pack_rows.simps) simp
    with run fin show ?thesis by simp
  next
    case False
    then have "pack_rows imgData (int w) (int h) b0 idx y = Inr (b0, idx)"
      by (subst pack_rows.simps) simp
    moreover have "take y b0 @ map (\<lambda>y. map (g y) [0..<w]) [y..<h] = b0"
      using False less.prems(2) by simp
    ultimately show ?thesis by simp
  qed
qed


text \<open>
  The layout the packing is meant to produce: row-major, \<open>y\<close> outer, \<open>x\<close> inner, the three
  channels innermost, over the bounds of the resized image.
\<close>

definition row_major :: "extern \<Rightarrow> Image \<Rightarrow> real list list list" where
  "row_major e r =
     map (\<lambda>y. map (\<lambda>x. pixel_floats e r x y) [0..<nat (Dx (Bounds r))]) [0..<nat (Dy (Bounds r))]"

lemma length_pixel_floats [simp]: "length (pixel_floats e r x y) = 3"
  by (simp add: pixel_floats_def split: prod.splits)

lemma pack_result:
  assumes "0 \<le> height" and "height = 0 \<or> 0 \<le> width"
  shows "\<exists>idx. pack_rows (norm_rows e r width height [] 0) width height
                  (replicate (nat height) []) 0 0 =
           Inr (map (\<lambda>y. map (\<lambda>x. pixel_floats e r x y) [0..<nat width]) [0..<nat height], idx)"
proof (cases "height = 0")
  case True
  then show ?thesis by (subst pack_rows.simps) simp
next
  case False
  with assms have w: "0 \<le> width" and h: "0 \<le> height" by simp_all
  let ?g = "\<lambda>y x. pixel_floats e r x y"
  have "\<exists>idx'. pack_rows (norm_rows e r width height [] 0) (int (nat width)) (int (nat height))
            (replicate (nat height) []) 0 0 =
          Inr (take 0 (replicate (nat height) []) @ map (\<lambda>y. map (?g y) [0..<nat width]) [0..<nat height], idx')"
    by (rule pack_rows_eq) (simp_all add: norm_rows_eq)
  with w h show ?thesis by simp
qed

lemma pack_panic:
  assumes "0 < height" and "width < 0"
  shows "pack_rows imgData width height (replicate (nat height) []) 0 0 = Inl MakeSliceLenOutOfRange"
  using assms by (subst pack_rows.simps) simp


text \<open>
  Claim C5, as the code has it. \<open>preprocessImage\<close> has no check of the decoded image's
  dimensions and no \<open>InvalidImage\<close> error. For every image, one without pixels included,
  it calls the resampler first, and its outcome depends on the image only through the
  resampled image: an error of tensor construction, the run-time panic of \<open>make\<close> when
  the resampled bounds are negative, or else the row-major tensor of the resampled image.
\<close>

theorem preprocessImage_outcome:
  "preprocessImage e c img =
     (let r = Resize e (word_of_int (inputWidth c)) (word_of_int (inputHeight c)) img
      in case NewTensor e (IntArray [1]) of
           Some msg \<Rightarrow> Inl (NewTensorError msg)
         | None \<Rightarrow>
             if Dy (Bounds r) < 0 \<or> (0 < Dy (Bounds r) \<and> Dx (Bounds r) < 0)
             then Inl MakeSliceLenOutOfRange
             else case NewTensor e (Float4 [row_major e r]) of
                    Some msg \<Rightarrow> Inl (NewTensorError msg)
                  | None \<Rightarrow> Inr (Float4 [row_major e r]))"
proof -
  let ?r = "Resize e (word_of_int (inputWidth c)) (word_of_int (inputHeight c)) img"
  let ?w = "Dx (Bounds ?r)" and ?h = "Dy (Bounds ?r)"
  consider (neg) "?h < 0" | (panic) "0 < ?h" "?w < 0" | (ok) "0 \<le> ?h" "?h = 0 \<or> 0 \<le> ?w"
    by linarith
  then show ?thesis
  proof cases
    case neg
    then show ?thesis
      by (simp add: preprocessImage_def Let_def split: option.splits)
  next
    case panic
    then show ?thesis
      by (simp add: preprocessImage_def Let_def pack_panic split: option.splits)
  next
    case ok
    obtain idx where
      "pack_rows (norm_rows e ?r ?w ?h [] 0) ?w ?h (replicate (nat ?h) []) 0 0 = Inr (row_major e ?r, idx)"
      using pack_result [OF ok, of e ?r] by (auto simp: row_major_def)
    with ok show ?thesis
      by (auto simp: preprocessImage_def Let_def split: option.splits)
  qed
qed

text \<open>
  Modelled from the spec: the contract of the resampler \<open>resize.Resize\<close> of the package
  \<open>github.com/nfnt/resize\<close>, which this repository imports and does not contain
  (section 4.2, step 1: the image is resized to exactly the target width and height).
\<close>

definition resizes_exactly :: "extern \<Rightarrow> bool" where
  "resizes_exactly e =
     (\<forall>w h img. 0 < unat w \<and> 0 < unat h \<and> 0 < Dx (Bounds img) \<and> 0 < Dy (Bounds img)
        \<longrightarrow> Dx (Bounds (Resize e w h img)) = int (unat w)
          \<and> Dy (Bounds (Resize e w h img)) = int (unat h))"





text \<open>
  A stand-in resampler for concrete runs: an image of the requested size in one colour.
\<close>

definition solid_resize :: "64 word \<Rightarrow> 64 word \<Rightarrow> Image \<Rightarrow> Image" where
  "solid_resize w h img =
     \<lparr>Bounds = \<lparr>Min_pt = \<lparr>X = 0, Y = 0\<rparr>, Max_pt = \<lparr>X = uint w, Y = uint h\<rparr>\<rparr>,
      At_RGBA = (\<lambda>x y. (0xffff, 0x3333, 0, 0xffff))\<rparr>"

definition one_pixel :: Image where
  "one_pixel =
     \<lparr>Bounds = \<lparr>Min_pt = \<lparr>X = 0, Y = 0\<rparr>, Max_pt = \<lparr>X = 1, Y = 1\<rparr>\<rparr>,
      At_RGBA = (\<lambda>x y. (0xffff, 0, 0, 0xffff))\<rparr>"

definition no_pixels :: Image where
  "no_pixels =
     \<lparr>Bounds = \<lparr>Min_pt = \<lparr>X = 0, Y = 0\<rparr>, Max_pt = \<lparr>X = 0, Y = 0\<rparr>\<rparr>,
      At_RGBA = (\<lambda>x y. (0, 0, 0, 0))\<rparr>"

lemma has_shape_row_major:
  "has_shape [row_major e r] 1 (nat (Dy (Bounds r))) (nat (Dx (Bounds r))) 3"
  by (simp add: has_shape_def row_major_def list_all_iff)

lemma resized_bounds:
  assumes "resizes_exactly e"
    and "0 < inputWidth c" "inputWidth c < 2 ^ 63" "0 < inputHeight c" "inputHeight c < 2 ^ 63"
    and "0 < Dx (Bounds img)" "0 < Dy (Bounds img)"
    and "r = Resize e (word_of_int (inputWidth c)) (word_of_int (inputHeight c)) img"
  shows "Dx (Bounds r) = inputWidth c \<and> Dy (Bounds r) = inputHeight c"
proof -
  have w: "int (unat (word_of_int (inputWidth c) :: 64 word)) = inputWidth c"
    using assms(2,3) by (simp add: unat_eq_nat_uint uint_word_of_int take_bit_int_eq_self)
  have h: "int (unat (word_of_int (inputHeight c) :: 64 word)) = inputHeight c"
    using assms(4,5) by (simp add: unat_eq_nat_uint uint_word_of_int take_bit_int_eq_self)
  have "0 < unat (word_of_int (inputWidth c) :: 64 word)"
    and "0 < unat (word_of_int (inputHeight c) :: 64 word)"
    using w h assms(2,4) by linarith+
  with assms(1,6,7,8) w h show ?thesis
    unfolding resizes_exactly_def by metis
qed

text \<open>
  Every tensor \<open>preprocessImage\<close> returns is the tensor of the row-major batch of the
  resized image, and it returns one only when the throw-away tensor of line 80 was built.
\<close>

lemma preprocessImage_returns:
  assumes "preprocessImage e c img = Inr t"
    and "r = Resize e (word_of_int (inputWidth c)) (word_of_int (inputHeight c)) img"
  shows "t = Float4 [row_major e r] \<and> NewTensor e (IntArray [1]) = None"
proof -
  let ?w = "Dx (Bounds r)" and ?h = "Dy (Bounds r)"
  consider (neg) "?h < 0" | (panic) "0 < ?h" "?w < 0" | (ok) "0 \<le> ?h" "?h = 0 \<or> 0 \<le> ?w"
    by linarith
  then show ?thesis
  proof cases
    case neg
    with assms show ?thesis
      by (simp add: preprocessImage_def Let_def split: option.splits)
  next
    case panic
    with assms show ?thesis
      by (simp add: preprocessImage_def Let_def pack_panic split: option.splits)
  next
    case ok
    obtain idx where
      "pack_rows (norm_rows e r ?w ?h [] 0) ?w ?h (replicate (nat ?h) []) 0 0 = Inr (row_major e r, idx)"
      using pack_result [OF ok, of e r] by (auto simp: row_major_def)
    with ok assms show ?thesis
      by (auto simp: preprocessImage_def Let_def split: option.splits if_splits)
  qed
qed

text \<open>
  The packing of lines 84-95 is right: with a resampler that resizes exactly, for every
  configured target height \<open>H\<close> and width \<open>W\<close> (positive Go \<open>int\<close>s) and every decoded image
  of positive width and height, the batch has shape \<open>[1, H, W, 3]\<close>, one image of \<open>H\<close> rows,
  each of \<open>W\<close> pixels, each of 3 values, and it is the only tensor value ever returned.
\<close>

lemma packed_shape:
  assumes "resizes_exactly e"
    and "0 < inputWidth c" "inputWidth c < 2 ^ 63" "0 < inputHeight c" "inputHeight c < 2 ^ 63"
    and "0 < Dx (Bounds img)" "0 < Dy (Bounds img)"
    and "r = Resize e (word_of_int (inputWidth c)) (word_of_int (inputHeight c)) img"
  shows "has_shape [row_major e r] 1 (nat (inputHeight c)) (nat (inputWidth c)) 3
         \<and> (\<forall>t. preprocessImage e c img = Inr t \<longrightarrow> t = Float4 [row_major e r])"
proof -
  have dims: "Dx (Bounds r) = inputWidth c \<and> Dy (Bounds r) = inputHeight c"
    using assms by (rule resized_bounds)
  then have "has_shape [row_major e r] 1 (nat (inputHeight c)) (nat (inputWidth c)) 3"
    using has_shape_row_major [of e r] by simp
  then show ?thesis
    using preprocessImage_returns [OF _ assms(8)] by blast
qed

text \<open>
  The throw-away tensor of line 80 decides before anything is packed: when its
  construction returns an error, lines 81-83 return that error, whatever the image.
\<close>

lemma throwaway_error:
  assumes "NewTensor e (IntArray [1]) = Some msg"
  shows "preprocessImage e c img = Inl (NewTensorError msg)"
  using assms by (simp add: preprocessImage_def Let_def)







text \<open>
  A second stand-in: a resampler that hands an image back as it is, which is what a
  resampler can do with an image that has no pixels.
\<close>

definition pass_through :: extern where
  "pass_through = \<lparr>Resize = (\<lambda>w h img. img), NewTensor = (\<lambda>v. None), f32 = (\<lambda>x. x)\<rparr>"





text \<open>
  A third stand-in: a tensor constructor that rejects Go's native \<open>int\<close> and accepts a
  \<open>float32\<close> batch. The element types of TensorFlow's Go binding are the fixed-width ones.
\<close>

definition strict_env :: extern where
  "strict_env =
     \<lparr>Resize = solid_resize,
      NewTensor = (\<lambda>v. case v of IntArray xs \<Rightarrow> Some ''unsupported type int'' | Float4 b \<Rightarrow> None),
      f32 = (\<lambda>x. x)\<rparr>"

text \<open>
  Claim C2 fails on the code as it is written. Line 80 builds a tensor from \<open>[1]int{1}\<close>
  that nothing uses, and lines 81-83 return its error. With a tensor constructor that
  rejects Go's native \<open>int\<close>, \<open>preprocessImage\<close> returns that error for a 1 by 1 image at
  the source's configuration, although the constructor accepts the batch, which has the
  shape \<open>[1, 224, 224, 3]\<close> the claim asks for.
\<close>

theorem preprocessImage_throwaway_failure:
  "preprocessImage strict_env source_config one_pixel = Inl (NewTensorError ''unsupported type int'')
   \<and> has_shape [row_major strict_env (Resize strict_env 224 224 one_pixel)] 1 224 224 3
   \<and> NewTensor strict_env (Float4 [row_major strict_env (Resize strict_env 224 224 one_pixel)]) = None"
proof -
  have "preprocessImage strict_env source_config one_pixel = Inl (NewTensorError ''unsupported type int'')"
    by (rule throwaway_error) (simp add: strict_env_def)
  moreover have "has_shape [row_major strict_env (Resize strict_env 224 224 one_pixel)] 1 224 224 3"
    using has_shape_row_major [of strict_env "Resize strict_env 224 224 one_pixel"]
    by (simp add: strict_env_def solid_resize_def Dx_def Dy_def)
  moreover have "NewTensor strict_env (Float4 [row_major strict_env (Resize strict_env 224 224 one_pixel)]) = None"
    by (simp add: strict_env_def)
  ultimately show ?thesis by simp
qed

text \<open>
  Claim C5 as stated fails: an image of width 0 and height 0 is not rejected. With a
  resampler that returns it as it is, \<open>preprocessImage\<close> returns the tensor of the empty
  batch.
\<close>

theorem preprocessImage_zero_size_counterexample:
  "Dx (Bounds no_pixels) = 0 \<and> Dy (Bounds no_pixels) = 0
   \<and> preprocessImage pass_through source_config no_pixels = Inr (Float4 [[]])"
  by (simp add: preprocessImage_def pass_through_def no_pixels_def Dx_def Dy_def Let_def
      norm_rows.simps pack_rows.simps)

section \<open>The image decoder: \<open>readImage\<close> (main.go, lines 48-62)\<close>

text \<open>
  An \<open>io.Reader\<close> is a byte source with a read position. Whether it can be rewound is a
  property of the value behind the interface: \<open>rewinds\<close> holds when that value implements
  \<open>io.Seeker\<close> and its \<open>Seek(0, io.SeekStart)\<close> succeeds. A \<open>Seek\<close> that fails leaves the
  position where it was, and \<open>readImage\<close> discards the error of both of its \<open>Seek\<close> calls.

  The codecs \<open>jpeg.Decode\<close> and \<open>png.Decode\<close> belong to Go's standard library, not to this
  repository: a decoder is a parameter that, given the unread bytes, returns the image or
  nothing and the number of bytes it has read.
\<close>

type_synonym byte = "8 word"

record reader =
  data :: "byte list"
  pos :: nat
  rewinds :: bool

type_synonym decoder = "byte list \<Rightarrow> Image option \<times> nat"

text \<open>A call \<open>Decode(r)\<close>: the decoder sees the bytes from the read position on, and the
  reader moves past what was read.\<close>

definition decode_with :: "decoder \<Rightarrow> reader \<Rightarrow> Image option \<times> reader" where
  "decode_with d r =
     (let unread = drop (pos r) (data r)
      in case d unread of (res, n) \<Rightarrow> (res, r\<lparr>pos := pos r + min n (length unread)\<rparr>))"

text \<open>A call \<open>Seek(0, io.SeekStart)\<close> whose results are dropped.\<close>

definition seek_start :: "reader \<Rightarrow> reader" where
  "seek_start r = (if rewinds r then r\<lparr>pos := 0\<rparr> else r)"

text \<open>
  \<open>readImage\<close>. Line 53 calls \<open>Seek\<close> on the \<open>io.Reader\<close> itself, a method that interface
  does not declare; the model gives the call the effect it has on the value behind the
  interface, which is also the effect of the guarded call of lines 54-56 that follows it.
  The model returns the reader as the call leaves it, next to the result.
\<close>

definition readImage :: "decoder \<Rightarrow> decoder \<Rightarrow> reader \<Rightarrow> (error + Image) \<times> reader" where
  "readImage jpegDecode pngDecode r =
     (case decode_with jpegDecode r of
        (Some img, r1) \<Rightarrow> (Inr img, r1)
      | (None, r1) \<Rightarrow>
          let r2 = seek_start r1;
              r3 = seek_start r2
          in case decode_with pngDecode r3 of
               (Some img, r4) \<Rightarrow> (Inr img, r4)
             | (None, r4) \<Rightarrow>
                 (Inl (DecodeError ''unsupported image format (only JPEG or PNG supported)''), r4))"

text \<open>
  Modelled from the spec: the decoder of section 4.1, which buffers the input once and
  runs each codec, JPEG first, on its own view of the whole buffer. It is the behaviour
  \<open>readImage\<close> is compared with, not a translation of code.
\<close>

definition decode_buffered :: "decoder \<Rightarrow> decoder \<Rightarrow> byte list \<Rightarrow> error + Image" where
  "decode_buffered jpegDecode pngDecode bytes =
     (case fst (jpegDecode bytes) of
        Some img \<Rightarrow> Inr img
      | None \<Rightarrow>
          (case fst (pngDecode bytes) of
             Some img \<Rightarrow> Inr img
           | None \<Rightarrow> Inl (DecodeError ''unsupported image format (only JPEG or PNG supported)'')))"

text \<open>Stand-in codecs and readers for concrete runs.\<close>

definition jpeg_stub :: decoder where
  "jpeg_stub bytes = (None, 2)"

definition png_stub :: decoder where
  "png_stub bytes = (if bytes = [0x89, 0x50, 0x4E] then (Some one_pixel, 3) else (None, length bytes))"

definition pipe_reader :: reader where
  "pipe_reader = \<lparr>data = [0x89, 0x50, 0x4E], pos = 0, rewinds = False\<rparr>"

definition file_reader :: reader where
  "file_reader = \<lparr>data = [0x89, 0x50, 0x4E], pos = 0, rewinds = True\<rparr>"

definition advanced_reader :: reader where
  "advanced_reader = \<lparr>data = [0x00, 0x89, 0x50, 0x4E], pos = 1, rewinds = True\<rparr>"

text \<open>
  The bytes each attempt sees: the JPEG attempt the unread bytes, the PNG attempt the
  whole source when the reader rewinds and otherwise what the JPEG attempt has left.
\<close>

lemma png_view:
  "fst (readImage jd pd r) =
     (case fst (jd (drop (pos r) (data r))) of
        Some img \<Rightarrow> Inr img
      | None \<Rightarrow>
          (case fst (pd (if rewinds r then data r
                         else drop (pos r + min (snd (jd (drop (pos r) (data r))))
                                               (length (data r) - pos r)) (data r))) of
             Some img \<Rightarrow> Inr img
           | None \<Rightarrow> Inl (DecodeError ''unsupported image format (only JPEG or PNG supported)'')))"
proof -
  let ?unread = "drop (pos r) (data r)"
  obtain res n where jd: "jd ?unread = (res, n)"
    by (cases "jd ?unread") auto
  let ?r1 = "r\<lparr>pos := pos r + min n (length ?unread)\<rparr>"
  have first: "decode_with jd r = (res, ?r1)"
    by (simp add: decode_with_def jd)
  show ?thesis
  proof (cases res)
    case (Some img)
    with first jd show ?thesis by (simp add: readImage_def)
  next
    case None
    let ?r3 = "seek_start (seek_start ?r1)"
    let ?view = "if rewinds r then data r else drop (pos r + min n (length (data r) - pos r)) (data r)"
    have view: "drop (pos ?r3) (data ?r3) = ?view"
      by (simp add: seek_start_def)
    obtain res2 n2 where pd: "pd ?view = (res2, n2)"
      by (cases "pd ?view") auto
    have second: "fst (decode_with pd ?r3) = res2"
      using view pd by (simp add: decode_with_def Let_def)
    have "fst (readImage jd pd r) =
        (case res2 of Some img \<Rightarrow> Inr img
         | None \<Rightarrow> Inl (DecodeError ''unsupported image format (only JPEG or PNG supported)''))"
      using first None second
      by (cases "decode_with pd ?r3") (simp add: readImage_def Let_def split: option.splits)
    with jd None pd show ?thesis by (cases "rewinds r") simp_all
  qed
qed

text \<open>
  Claim C4, as the code has it. \<open>readImage\<close> tries JPEG and then PNG on the one reader and
  buffers nothing. After a failed JPEG attempt it rewinds a reader that can be rewound, and
  the PNG attempt then reads the source from its first byte; on any other reader the PNG
  attempt reads from where the JPEG attempt stopped. For a reader that rewinds and stands
  at its first byte, the result is that of the buffered decoder on the whole input.
\<close>

theorem readImage_attempts:
  "fst (readImage jd pd r) =
     (case fst (jd (drop (pos r) (data r))) of
        Some img \<Rightarrow> Inr img
      | None \<Rightarrow>
          (case fst (pd (if rewinds r then data r
                         else drop (pos r + min (snd (jd (drop (pos r) (data r))))
                                               (length (data r) - pos r)) (data r))) of
             Some img \<Rightarrow> Inr img
           | None \<Rightarrow> Inl (DecodeError ''unsupported image format (only JPEG or PNG supported)'')))
   \<and> (rewinds r \<and> pos r = 0 \<longrightarrow> fst (readImage jd pd r) = decode_buffered jd pd (data r))"
  by (simp add: png_view decode_buffered_def)

text \<open>
  The instance of claim C4 at a rewinding reader over three bytes that the PNG stand-in
  accepts.
\<close>

theorem readImage_attempts_witness:
  "rewinds file_reader \<and> pos file_reader = 0
   \<and> fst (readImage jpeg_stub png_stub file_reader) = Inr one_pixel
   \<and> decode_buffered jpeg_stub png_stub (data file_reader) = Inr one_pixel"
  using readImage_attempts [of jpeg_stub png_stub file_reader]
  by (simp add: file_reader_def decode_buffered_def jpeg_stub_def png_stub_def)

text \<open>
  Claim C4 as stated fails in two ways. On a reader that cannot be rewound, the JPEG
  attempt reads two bytes and the PNG attempt sees only the third, so \<open>readImage\<close> fails
  where the buffered decoder succeeds on the same input. On a rewinding reader that does
  not stand at its first byte, the PNG attempt sees a byte that the JPEG attempt never
  saw, and fails likewise.
\<close>

theorem readImage_buffered_counterexample:
  "fst (readImage jpeg_stub png_stub pipe_reader) =
     Inl (DecodeError ''unsupported image format (only JPEG or PNG supported)'')
   \<and> decode_buffered jpeg_stub png_stub (drop (pos pipe_reader) (data pipe_reader)) = Inr one_pixel
   \<and> fst (readImage jpeg_stub png_stub advanced_reader) =
     Inl (DecodeError ''unsupported image format (only JPEG or PNG supported)'')
   \<and> decode_buffered jpeg_stub png_stub (drop (pos advanced_reader) (data advanced_reader)) = Inr one_pixel"
  by (simp add: readImage_def decode_with_def seek_start_def Let_def decode_buffered_def
      jpeg_stub_def png_stub_def pipe_reader_def advanced_reader_def)

end
